theory Spec2Isabelle
  imports Complex_Main
begin

section \<open>Number theory functions of Quantum++ (include/number\_theory.h)\<close>

text \<open>
  The functions of \<^verbatim>\<open>number_theory.h\<close> are pure; an exception thrown by the source is a
  value \<open>Inl e\<close> of the result, \<open>e\<close> being the \<^verbatim>\<open>Exception::Type\<close> passed to the constructor.
\<close>

datatype exception_type = OUT_OF_RANGE | ZERO_SIZE | PERM_INVALID

text \<open>
  \<^verbatim>\<open>idx\<close> is the library's unsigned index type (an alias of \<^verbatim>\<open>std::size_t\<close>, declared in
  \<^verbatim>\<open>types.h\<close>). Its values are natural numbers below \<open>2 ^ w\<close>, \<open>w\<close> being the width of the
  type in bits. The width is not fixed by the header: the functions whose arithmetic can
  leave the range take it as a parameter and have the wrap-around written out. Remainder,
  maximum, comparison and division never leave the range.
\<close>

type_synonym idx = nat

subsection \<open>Greatest common divisor\<close>

text \<open>
  \<^verbatim>\<open>
  idx gcd(idx m, idx n)
  {
      if (m == 0 || n == 0)
          return (std::max(m, n));
      idx result = 1;
      while (n)
      {
          result = n;
          n = m % result;
          m = result;
      }
      return result;
  }
  \<close>
  The state of the loop is \<open>(m, n, result)\<close>.
\<close>

function gcd_loop :: "idx \<Rightarrow> idx \<Rightarrow> idx \<Rightarrow> idx" where
  "gcd_loop m n result = (if n \<noteq> 0 then gcd_loop n (m mod n) n else result)"
  by pat_completeness auto
termination
  by (relation "measure (\<lambda>(m, n, result). n)") auto

declare gcd_loop.simps [simp del]

definition gcd_idx :: "idx \<Rightarrow> idx \<Rightarrow> idx" where
  "gcd_idx m n = (if m = 0 \<or> n = 0 then max m n else gcd_loop m n 1)"

text \<open>
  \<^verbatim>\<open>
  idx gcd(const std::vector <idx>& ns)
  {
      if (ns.size() == 0)
          throw Exception("qpp::gcd()", Exception::Type::ZERO_SIZE);
      idx result = ns[0]; // convention: gcd({n}) = n
      for (idx i = 1; i < ns.size(); ++i)
          result = gcd(result, ns[i]);
      return result;
  }
  \<close>
\<close>

fun gcd_vec_loop :: "idx \<Rightarrow> idx list \<Rightarrow> idx" where
  "gcd_vec_loop result [] = result"
| "gcd_vec_loop result (x # xs) = gcd_vec_loop (gcd_idx result x) xs"

fun gcd_vec :: "idx list \<Rightarrow> exception_type + idx" where
  "gcd_vec [] = Inl ZERO_SIZE"
| "gcd_vec (n # ns) = Inr (gcd_vec_loop n ns)"

subsection \<open>Least common multiple\<close>

text \<open>
  The product of two \<^verbatim>\<open>idx\<close> values is reduced modulo \<open>2 ^ w\<close>, as unsigned arithmetic is
  in C++; so is a value converted to a narrower unsigned type.
\<close>

definition wrap :: "nat \<Rightarrow> nat \<Rightarrow> nat" where
  "wrap w x = x mod 2 ^ w"

text \<open>
  \<^verbatim>\<open>
  idx lcm(idx m, idx n)
  {
      if (m == 0 || n == 0)
          throw Exception("qpp::lcm()", Exception::Type::OUT_OF_RANGE);
      return m * n / gcd(m, n);
  }
  \<close>
  \<open>w\<close> is the width of \<^verbatim>\<open>idx\<close>.
\<close>

definition lcm_idx :: "nat \<Rightarrow> idx \<Rightarrow> idx \<Rightarrow> exception_type + idx" where
  "lcm_idx w m n =
     (if m = 0 \<or> n = 0 then Inl OUT_OF_RANGE
      else Inr (wrap w (m * n) div gcd_idx m n))"

text \<open>
  \<^verbatim>\<open>
  idx lcm(const std::vector <idx>& ns)
  {
      if (ns.size() == 0)
          throw Exception("qpp::lcm()", Exception::Type::ZERO_SIZE);
      if (ns.size() == 1) // convention: lcm({n}) = n
          return ns[0];
      if (std::find(std::begin(ns), std::end(ns), 0) != std::end(ns))
          throw Exception("qpp::lcm()", Exception::Type::OUT_OF_RANGE);
      auto multiply = [](idx x, idx y) -> idx
      {
          return x * y;
      };
      idx prod = std::accumulate(std::begin(ns), std::end(ns),
              1u, multiply);
      return prod / gcd(ns);
  }
  \<close>
  The initial value \<^verbatim>\<open>1u\<close> is an \<^verbatim>\<open>unsigned int\<close>, so \<^verbatim>\<open>std::accumulate\<close> is instantiated
  with \<^verbatim>\<open>T = unsigned int\<close>: its accumulator has the width \<open>u\<close> of \<^verbatim>\<open>unsigned int\<close>. Each
  step \<^verbatim>\<open>init = op(init, *first)\<close> converts the accumulator to \<^verbatim>\<open>idx\<close>, multiplies in
  \<^verbatim>\<open>idx\<close> and converts the product back to \<^verbatim>\<open>unsigned int\<close>; the final value is
  converted to \<^verbatim>\<open>idx\<close> once more.
\<close>

definition multiply :: "nat \<Rightarrow> idx \<Rightarrow> idx \<Rightarrow> idx" where
  "multiply w x y = wrap w (x * y)"

fun accumulate :: "nat \<Rightarrow> nat \<Rightarrow> idx list \<Rightarrow> nat \<Rightarrow> nat" where
  "accumulate w u [] init = init"
| "accumulate w u (x # xs) init =
     accumulate w u xs (wrap u (multiply w (wrap w init) x))"

definition lcm_vec :: "nat \<Rightarrow> nat \<Rightarrow> idx list \<Rightarrow> exception_type + idx" where
  "lcm_vec w u ns =
     (if length ns = 0 then Inl ZERO_SIZE
      else if length ns = 1 then Inr (ns ! 0)
      else if 0 \<in> set ns then Inl OUT_OF_RANGE
      else
        (let prod' = wrap w (accumulate w u ns (wrap u 1)) in
         case gcd_vec ns of
           Inl e \<Rightarrow> Inl e
         | Inr g \<Rightarrow> Inr (prod' div g)))"

subsection \<open>Permutations\<close>

text \<open>
  Modelled from the spec: \<^verbatim>\<open>internal::_check_perm\<close> is defined outside this header. The
  specification: a candidate permutation vector of length \<open>N\<close> is valid iff every element
  lies in \<open>[0, N)\<close> and all elements are pairwise distinct.
\<close>

definition check_perm :: "idx list \<Rightarrow> bool" where
  "check_perm perm = (list_all (\<lambda>x. x < length perm) perm \<and> distinct perm)"

text \<open>
  \<^verbatim>\<open>
  std::vector <idx> invperm(const std::vector <idx>& perm)
  {
      if (!internal::_check_perm(perm))
          throw Exception("qpp::invperm()", Exception::Type::PERM_INVALID);
      std::vector <idx> result(perm.size());
      for (idx i = 0; i < perm.size(); ++i)
          result[perm[i]] = i;
      return result;
  }
  \<close>
  \<^verbatim>\<open>result\<close> starts as \<open>perm.size()\<close> zeros. The loop runs over \<open>i = 0, \<dots>, perm.size() - 1\<close>;
  every write is in range once the check has passed.
\<close>

definition invperm :: "idx list \<Rightarrow> exception_type + idx list" where
  "invperm perm =
     (if \<not> check_perm perm then Inl PERM_INVALID
      else Inr (fold (\<lambda>i result. result[perm ! i := i]) [0..<length perm]
                  (replicate (length perm) 0)))"

text \<open>
  \<^verbatim>\<open>
  std::vector <idx> compperm(const std::vector <idx>& perm,
          const std::vector <idx>& sigma)
  {
      if (!internal::_check_perm(perm))
          throw Exception("qpp::compperm()", Exception::Type::PERM_INVALID);
      if (!internal::_check_perm(sigma))
          throw Exception("qpp::compperm()", Exception::Type::PERM_INVALID);
      if (perm.size() != sigma.size())
          throw Exception("qpp::compperm()", Exception::Type::PERM_INVALID);
      std::vector <idx> result(perm.size());
      for (idx i = 0; i < perm.size(); ++i)
          result[i] = perm[sigma[i]];
      return result;
  }
  \<close>
\<close>

definition compperm :: "idx list \<Rightarrow> idx list \<Rightarrow> exception_type + idx list" where
  "compperm perm sigma =
     (if \<not> check_perm perm then Inl PERM_INVALID
      else if \<not> check_perm sigma then Inl PERM_INVALID
      else if length perm \<noteq> length sigma then Inl PERM_INVALID
      else Inr (fold (\<lambda>i result. result[i := perm ! (sigma ! i)]) [0..<length perm]
                  (replicate (length perm) 0)))"

subsection \<open>Continued fractions\<close>

text \<open>
  The continued-fraction functions compute in \<^verbatim>\<open>double\<close>. The operations of the type are
  parameters of the model: a record of the primitives the header uses, over any carrier
  \<open>'d\<close>. What is proved holds for every such record, the IEEE 754 operations among them.
  \<open>fp_of_int\<close> is the conversion of an integer (an \<^verbatim>\<open>int\<close> term, the constant \<^verbatim>\<open>1\<close>, the
  \<^verbatim>\<open>idx\<close> cutoff) to \<^verbatim>\<open>double\<close>; \<open>fp_llround\<close> is \<^verbatim>\<open>std::llround\<close>, \<open>fp_gt\<close> is the comparison
  \<^verbatim>\<open>x > y\<close>.
\<close>

record 'd fpu =
  fp_of_int :: "int \<Rightarrow> 'd"
  fp_floor :: "'d \<Rightarrow> 'd"
  fp_llround :: "'d \<Rightarrow> int"
  fp_add :: "'d \<Rightarrow> 'd \<Rightarrow> 'd"
  fp_sub :: "'d \<Rightarrow> 'd \<Rightarrow> 'd"
  fp_div :: "'d \<Rightarrow> 'd \<Rightarrow> 'd"
  fp_isfinite :: "'d \<Rightarrow> bool"
  fp_gt :: "'d \<Rightarrow> 'd \<Rightarrow> bool"

text \<open>
  \<^verbatim>\<open>
  std::vector<long long int> x2contfrac(double x, idx n, idx cut = 1e5)
  {
      if (n == 0)
          throw Exception("qpp::x2contfrac()", Exception::Type::OUT_OF_RANGE);
      std::vector<long long int> result;
      for (idx i = 0; i < n; ++i)
      {
          result.push_back(std::llround(std::floor(x)));
          x = 1 / (x - std::floor(x));
          if (!std::isfinite(x) || x > cut)
              return result;
      }
      return result;
  }
  \<close>
  The loop is a recursion on the number \<open>n - i\<close> of iterations left, with the state
  \<open>(x, result)\<close>. The parameter \<^verbatim>\<open>cut\<close> is written \<open>cut'\<close>, the local \<^verbatim>\<open>prod\<close> of the
  collection lcm \<open>prod'\<close>: both names are constants of HOL.
\<close>

fun x2contfrac_loop :: "'d fpu \<Rightarrow> 'd \<Rightarrow> nat \<Rightarrow> idx \<Rightarrow> int list \<Rightarrow> int list" where
  "x2contfrac_loop F x 0 cut' result = result"
| "x2contfrac_loop F x (Suc k) cut' result =
     (let result' = result @ [fp_llround F (fp_floor F x)];
          x' = fp_div F (fp_of_int F 1) (fp_sub F x (fp_floor F x))
      in if \<not> fp_isfinite F x' \<or> fp_gt F x' (fp_of_int F (int cut')) then result'
         else x2contfrac_loop F x' k cut' result')"

definition x2contfrac :: "'d fpu \<Rightarrow> 'd \<Rightarrow> idx \<Rightarrow> idx \<Rightarrow> exception_type + int list" where
  "x2contfrac F x n cut' =
     (if n = 0 then Inl OUT_OF_RANGE else Inr (x2contfrac_loop F x n cut' []))"

text \<open>
  \<^verbatim>\<open>
  double contfrac2x(const std::vector<int>& cf, idx n)
  {
      if (cf.size() == 0)
          throw Exception("qpp::contfrac2x()", Exception::Type::ZERO_SIZE);
      if (n == 0)
          throw Exception("qpp::contfrac2x()", Exception::Type::OUT_OF_RANGE);
      if (n > cf.size())
          n = cf.size();
      if (n == 1) // degenerate case, integer
          return cf[0];
      double tmp = 1. / cf[n - 1];
      for (idx i = n - 2; i != 0; --i)
      {
          tmp = 1. / (tmp + cf[i]);
      }
      return cf[0] + tmp;
  }
  \<close>
  The loop counts \<open>i\<close> down to 0; its state is \<open>(i, tmp)\<close>.
\<close>

fun contfrac2x_loop :: "'d fpu \<Rightarrow> int list \<Rightarrow> nat \<Rightarrow> 'd \<Rightarrow> 'd" where
  "contfrac2x_loop F cf 0 tmp = tmp"
| "contfrac2x_loop F cf (Suc j) tmp =
     contfrac2x_loop F cf j
       (fp_div F (fp_of_int F 1) (fp_add F tmp (fp_of_int F (cf ! Suc j))))"

definition contfrac2x_n :: "'d fpu \<Rightarrow> int list \<Rightarrow> idx \<Rightarrow> exception_type + 'd" where
  "contfrac2x_n F cf n =
     (if length cf = 0 then Inl ZERO_SIZE
      else if n = 0 then Inl OUT_OF_RANGE
      else
        (let n = (if n > length cf then length cf else n) in
         if n = 1 then Inr (fp_of_int F (cf ! 0))
         else
           (let tmp = fp_div F (fp_of_int F 1) (fp_of_int F (cf ! (n - 1)))
            in Inr (fp_add F (fp_of_int F (cf ! 0)) (contfrac2x_loop F cf (n - 2) tmp)))))"

text \<open>
  \<^verbatim>\<open>
  double contfrac2x(const std::vector<int>& cf)
  {
      if (cf.size() == 0)
          throw Exception("qpp::contfrac2x()", Exception::Type::ZERO_SIZE);
      if (cf.size() == 1) // degenerate case, integer
          return cf[0];
      double tmp = 1. / cf[cf.size() - 1];
      for (idx i = cf.size() - 2; i != 0; --i)
      {
          tmp = 1. / (tmp + cf[i]);
      }
      return cf[0] + tmp;
  }
  \<close>
\<close>

definition contfrac2x :: "'d fpu \<Rightarrow> int list \<Rightarrow> exception_type + 'd" where
  "contfrac2x F cf =
     (if length cf = 0 then Inl ZERO_SIZE
      else if length cf = 1 then Inr (fp_of_int F (cf ! 0))
      else
        (let tmp = fp_div F (fp_of_int F 1) (fp_of_int F (cf ! (length cf - 1)))
         in Inr (fp_add F (fp_of_int F (cf ! 0))
                   (contfrac2x_loop F cf (length cf - 2) tmp))))"

text \<open>
  The specification of the expansion, in its own words: the next term is the
  (nearest-integer-rounded) floor of the current value, the next value is
  \<open>1 / (x - floor(x))\<close>, and the expansion stops as soon as the next value is non-finite or
  exceeds the cutoff.
\<close>

definition spec_term :: "'d fpu \<Rightarrow> 'd \<Rightarrow> int" where
  "spec_term F x = fp_llround F (fp_floor F x)"

definition spec_next :: "'d fpu \<Rightarrow> 'd \<Rightarrow> 'd" where
  "spec_next F x = fp_div F (fp_of_int F 1) (fp_sub F x (fp_floor F x))"

definition spec_stop :: "'d fpu \<Rightarrow> idx \<Rightarrow> 'd \<Rightarrow> bool" where
  "spec_stop F cut' x = (\<not> fp_isfinite F x \<or> fp_gt F x (fp_of_int F (int cut')))"

text \<open>
  An instance of the primitives, to run the functions on concrete inputs: exact rational
  arithmetic, with one value \<open>None\<close> that is not finite. It results from a division by
  zero and from every operation on it, and compares false. \<open>fp_llround\<close> rounds half
  away from zero. On inputs such as \<open>1.5 = 1 + 1/2\<close>, where \<^verbatim>\<open>double\<close> arithmetic is
  exact, it computes what the \<^verbatim>\<open>double\<close> operations compute.
\<close>

definition exact_fpu :: "rat option fpu" where
  "exact_fpu =
     \<lparr>fp_of_int = (\<lambda>i. Some (of_int i)),
      fp_floor = (\<lambda>x. case x of None \<Rightarrow> None | Some a \<Rightarrow> Some (of_int \<lfloor>a\<rfloor>)),
      fp_llround = (\<lambda>x. case x of None \<Rightarrow> 0
                     | Some a \<Rightarrow> if 0 \<le> a then \<lfloor>a + 1 / 2\<rfloor> else - \<lfloor>- a + 1 / 2\<rfloor>),
      fp_add = (\<lambda>x y. case x of None \<Rightarrow> None
                     | Some a \<Rightarrow> (case y of None \<Rightarrow> None | Some b \<Rightarrow> Some (a + b))),
      fp_sub = (\<lambda>x y. case x of None \<Rightarrow> None
                     | Some a \<Rightarrow> (case y of None \<Rightarrow> None | Some b \<Rightarrow> Some (a - b))),
      fp_div = (\<lambda>x y. case x of None \<Rightarrow> None
                     | Some a \<Rightarrow> (case y of None \<Rightarrow> None
                         | Some b \<Rightarrow> if b = 0 then None else Some (a / b))),
      fp_isfinite = (\<lambda>x. x \<noteq> None),
      fp_gt = (\<lambda>x y. case x of None \<Rightarrow> False
                     | Some a \<Rightarrow> (case y of None \<Rightarrow> False | Some b \<Rightarrow> b < a))\<rparr>"

section \<open>Properties\<close>

subsection \<open>Pairwise gcd\<close>

lemma gcd_loop_gcd: "0 < n \<Longrightarrow> gcd_loop m n r = gcd m n"
proof (induction m n r rule: gcd_loop.induct)
  case (1 m n result)
  have unfold: "gcd_loop m n result = gcd_loop n (m mod n) n"
    using "1.prems" by (subst gcd_loop.simps) simp
  show ?case
  proof (cases "m mod n = 0")
    case True
    have "gcd_loop n 0 n = n"
      by (subst gcd_loop.simps) simp
    moreover from True have "gcd m n = n"
      by (metis gcd.commute gcd_red_nat gcd_0_nat)
    ultimately show ?thesis
      using unfold True by simp
  next
    case False
    with "1.prems" "1.IH" have "gcd_loop n (m mod n) n = gcd n (m mod n)"
      by simp
    also have "\<dots> = gcd m n"
      by (metis gcd.commute gcd_red_nat)
    finally show ?thesis
      using unfold by simp
  qed
qed

lemma gcd_idx_gcd: "gcd_idx m n = gcd m n"
  by (auto simp: gcd_idx_def gcd_loop_gcd)

text \<open>
  C7. Pairwise gcd is a total function (its loop terminates, and the source has no
  \<^verbatim>\<open>throw\<close>); it is symmetric, \<open>gcd(m, 0) = m\<close> and \<open>gcd(0, 0) = 0\<close>.
\<close>

theorem gcd_idx_symmetric_zero:
  "gcd_idx m n = gcd_idx n m \<and> gcd_idx m 0 = m \<and> gcd_idx 0 0 = 0"
  using gcd.commute [of m n] by (simp add: gcd_idx_gcd)

subsection \<open>Collection gcd\<close>

lemma gcd_vec_loop_Gcd: "gcd_vec_loop r xs = Gcd (set (r # xs))"
proof (induction xs arbitrary: r)
  case Nil
  then show ?case by simp
next
  case (Cons x xs)
  have "gcd_vec_loop r (x # xs) = Gcd (set (gcd r x # xs))"
    using Cons.IH [of "gcd r x"] by (simp add: gcd_idx_gcd)
  also have "\<dots> = gcd (gcd r x) (Gcd (set xs))"
    by simp
  also have "\<dots> = Gcd (set (r # x # xs))"
    by (simp add: gcd.assoc)
  finally show ?case .
qed

lemma gcd_vec_loop_foldl: "gcd_vec_loop r xs = foldl gcd_idx r xs"
  by (induction xs arbitrary: r) simp_all

lemma gcd_vec_Inr: "ns \<noteq> [] \<Longrightarrow> gcd_vec ns = Inr (Gcd (set ns))"
  by (cases ns) (simp_all add: gcd_vec_loop_Gcd del: set_simps)

lemma gcd_vec_pos: "ns \<noteq> [] \<Longrightarrow> 0 \<notin> set ns \<Longrightarrow> gcd_vec ns = Inr g \<Longrightarrow> 0 < g"
proof -
  assume ne: "ns \<noteq> []" and nz: "0 \<notin> set ns" and res: "gcd_vec ns = Inr g"
  from ne res have g: "g = Gcd (set ns)"
    by (simp add: gcd_vec_Inr)
  from ne obtain x where x: "x \<in> set ns"
    by (cases ns) auto
  with nz have "x \<noteq> 0"
    by (metis)
  with x have "Gcd (set ns) \<noteq> 0"
    by auto
  then have "0 < Gcd (set ns)"
    by (simp only: neq0_conv)
  with g show "0 < g"
    by (simp only:)
qed

text \<open>
  C6 (amended). Collection gcd signals an error exactly on the empty collection. On a
  non-empty collection it is the left-to-right fold of the pairwise gcd seeded with the first
  element; the result divides every element, and every common divisor of the elements
  divides the result. When some element is non-zero, no larger common divisor exists. (On
  a collection of zeros the result is 0, by the convention \<open>gcd({n}) = n\<close> and
  \<open>gcd(0, 0) = 0\<close>, and every number is a common divisor.)
\<close>

theorem gcd_vec_fold_divides:
  "((\<exists>e. gcd_vec ns = Inl e) \<longleftrightarrow> ns = []) \<and>
   (ns \<noteq> [] \<longrightarrow>
     (\<exists>g. gcd_vec ns = Inr g \<and> g = foldl gcd_idx (hd ns) (tl ns) \<and>
        (\<forall>x\<in>set ns. g dvd x) \<and>
        (\<forall>d. (\<forall>x\<in>set ns. d dvd x) \<longrightarrow> d dvd g) \<and>
        ((\<exists>x\<in>set ns. x \<noteq> 0) \<longrightarrow> (\<forall>d. (\<forall>x\<in>set ns. d dvd x) \<longrightarrow> d \<le> g))))"
proof (cases ns)
  case Nil
  then show ?thesis by simp
next
  case (Cons n ns')
  let ?g = "Gcd (set ns)"
  from Cons have ne: "ns \<noteq> []"
    by simp
  then have res: "gcd_vec ns = Inr ?g"
    by (rule gcd_vec_Inr)
  have "gcd_vec ns = Inr (foldl gcd_idx (hd ns) (tl ns))"
    using Cons by (simp add: gcd_vec_loop_foldl)
  with res have fold: "?g = foldl gcd_idx (hd ns) (tl ns)"
    by simp
  have div: "\<forall>x\<in>set ns. ?g dvd x"
    by (simp add: Gcd_dvd)
  have greatest: "\<forall>d. (\<forall>x\<in>set ns. d dvd x) \<longrightarrow> d dvd ?g"
    by (simp add: Gcd_greatest)
  have largest: "(\<exists>x\<in>set ns. x \<noteq> 0) \<longrightarrow> (\<forall>d. (\<forall>x\<in>set ns. d dvd x) \<longrightarrow> d \<le> ?g)"
  proof (intro impI allI)
    fix d
    assume nz: "\<exists>x\<in>set ns. x \<noteq> 0" and cd: "\<forall>x\<in>set ns. d dvd x"
    from nz have "?g \<noteq> 0"
      by auto
    then have "0 < ?g"
      by (simp only: neq0_conv)
    moreover from cd have "d dvd ?g"
      by (simp add: Gcd_greatest)
    ultimately show "d \<le> ?g"
      by (rule_tac dvd_imp_le)
  qed
  from res ne have err: "(\<exists>e. gcd_vec ns = Inl e) \<longleftrightarrow> ns = []"
    by simp
  have ex: "\<exists>g. gcd_vec ns = Inr g \<and> g = foldl gcd_idx (hd ns) (tl ns) \<and>
        (\<forall>x\<in>set ns. g dvd x) \<and>
        (\<forall>d. (\<forall>x\<in>set ns. d dvd x) \<longrightarrow> d dvd g) \<and>
        ((\<exists>x\<in>set ns. x \<noteq> 0) \<longrightarrow> (\<forall>d. (\<forall>x\<in>set ns. d dvd x) \<longrightarrow> d \<le> g))"
    using res fold div greatest largest
    by - (rule exI [of _ "Gcd (set ns)"], intro conjI, assumption+)
  from err ex show ?thesis
    by (intro conjI impI)
qed


theorem gcd_vec_fold_divides_witness:
  "gcd_vec [12, 18, 24] = Inr 6 \<and> (6::nat) dvd 12 \<and> (6::nat) dvd 18 \<and> (6::nat) dvd 24"
proof -
  have val: "gcd_vec [12, 18, 24] = Inr 6"
    by code_simp
  with gcd_vec_fold_divides [of "[12, 18, 24]"] show ?thesis
    by simp
qed

text \<open>
  The claim as first stated fails on \<open>[0]\<close>: the result is 0, and 1 is a larger common
  divisor.
\<close>

theorem gcd_vec_zero_counterexample:
  "gcd_vec [0] = Inr 0 \<and> (1::nat) dvd 0 \<and> (0::nat) < 1"
  by simp

subsection \<open>Pairwise lcm\<close>

lemma wrap_id: "x < 2 ^ w \<Longrightarrow> wrap w x = x"
  by (simp add: wrap_def)

text \<open>
  Pairwise lcm signals an error exactly when an operand is zero. Where the product
  \<open>m * n\<close> does not wrap around (\<open>m * n < 2 ^ w\<close>), the result satisfies
  \<open>lcm(m, n) * gcd(m, n) = m * n\<close>.
\<close>

lemma lcm_idx_no_overflow:
  "((\<exists>e. lcm_idx w m n = Inl e) \<longleftrightarrow> (m = 0 \<or> n = 0)) \<and>
   (0 < m \<and> 0 < n \<and> m * n < 2 ^ w \<longrightarrow>
      (\<exists>l. lcm_idx w m n = Inr l \<and> l * gcd_idx m n = m * n))"
proof -
  have err: "(\<exists>e. lcm_idx w m n = Inl e) \<longleftrightarrow> (m = 0 \<or> n = 0)"
    by (simp add: lcm_idx_def)
  have prod: "\<exists>l. lcm_idx w m n = Inr l \<and> l * gcd_idx m n = m * n"
    if "0 < m \<and> 0 < n \<and> m * n < 2 ^ w"
  proof -
    from that have "lcm_idx w m n = Inr (m * n div gcd m n)"
      by (simp add: lcm_idx_def wrap_id gcd_idx_gcd)
    moreover have "gcd m n dvd m * n"
      by simp
    then have "m * n div gcd m n * gcd_idx m n = m * n"
      by (simp only: gcd_idx_gcd dvd_div_mult_self)
    ultimately show ?thesis
      by simp
  qed
  from err prod show ?thesis
    by (intro conjI impI)
qed

lemma lcm_idx_no_overflow_example:
  "lcm_idx 64 4 6 = Inr 12 \<and> 12 * gcd_idx 4 6 = (24::nat) \<and>
   (\<exists>e. lcm_idx 64 0 6 = Inl e)"
proof -
  have g: "gcd_idx 4 6 = 2"
    by code_simp
  from lcm_idx_no_overflow [of 64 4 6] lcm_idx_no_overflow [of 64 0 6]
  show ?thesis
    by (simp add: g)
qed

text \<open>
  Dividing first, \<open>m / gcd(m, n) * n\<close>, satisfies the identity in the wrapped arithmetic of
  \<^verbatim>\<open>idx\<close> for all operands and every width, and exactly whenever the least common multiple
  fits.
\<close>

lemma divide_first_identity:
  "wrap w (wrap w (m div gcd_idx m n * n) * gcd_idx m n) = wrap w (m * n)"
proof -
  have "m div gcd m n * n * gcd m n = m div gcd m n * gcd m n * n"
    by (simp add: mult.assoc mult.commute [of n])
  also have "\<dots> = m * n"
    by simp
  finally have "m div gcd m n * n * gcd m n = m * n" .
  then have "wrap w (m div gcd m n * n * gcd m n) = wrap w (m * n)"
    by (simp only:)
  then show ?thesis
    by (simp add: wrap_def gcd_idx_gcd mod_mult_left_eq)
qed

text \<open>
  C3. For strictly positive \<open>m\<close> and \<open>n\<close> pairwise lcm is to satisfy
  \<open>lcm(m, n) * gcd(m, n) = m * n\<close>. With a 64-bit \<^verbatim>\<open>idx\<close> the product \<open>m * n\<close> of
  \<open>m = n = 2 ^ 32 + 1\<close> wraps around to \<open>2 ^ 33 + 1\<close> before the division: the function
  returns 1, and the identity fails, in exact and in wrapped arithmetic. The least common
  multiple \<open>2 ^ 32 + 1\<close> fits in \<^verbatim>\<open>idx\<close>, and dividing first returns it.
\<close>

theorem lcm_idx_overflow:
  "lcm_idx 64 4294967297 4294967297 = Inr 1 \<and>
   gcd_idx 4294967297 4294967297 = 4294967297 \<and>
   (1::nat) * 4294967297 \<noteq> 4294967297 * 4294967297 \<and>
   wrap 64 (1 * 4294967297) \<noteq> wrap 64 (4294967297 * 4294967297) \<and>
   wrap 64 (4294967297 div gcd_idx 4294967297 4294967297 * 4294967297) = 4294967297"
proof -
  have g: "gcd_idx 4294967297 4294967297 = 4294967297"
    by (simp add: gcd_idx_gcd)
  then show ?thesis
    by (simp add: lcm_idx_def wrap_def)
qed

subsection \<open>Collection lcm\<close>

text \<open>
  The error cases and the singleton case are as the header documents them.
\<close>

lemma lcm_vec_error_iff:
  "(\<exists>e. lcm_vec w u ns = Inl e) \<longleftrightarrow> ns = [] \<or> (2 \<le> length ns \<and> 0 \<in> set ns)"
proof (cases "ns = []")
  case True
  then show ?thesis by (simp add: lcm_vec_def)
next
  case ne: False
  show ?thesis
  proof (cases "length ns = 1")
    case True
    with ne show ?thesis by (simp add: lcm_vec_def)
  next
    case False
    moreover from ne have "length ns \<noteq> 0"
      by simp
    ultimately have len: "2 \<le> length ns"
      by arith
    from ne have "gcd_vec ns = Inr (Gcd (set ns))"
      by (rule gcd_vec_Inr)
    with ne False len show ?thesis
      by (simp add: lcm_vec_def Let_def)
  qed
qed

lemma lcm_vec_singleton: "lcm_vec w u [n] = Inr n"
  by (simp add: lcm_vec_def)

text \<open>
  As long as the product of the elements fits in the accumulator of \<^verbatim>\<open>std::accumulate\<close>
  (an \<^verbatim>\<open>unsigned int\<close>, no wider than \<^verbatim>\<open>idx\<close>), the result is the product divided by the
  collection gcd, which is positive.
\<close>

lemma prod_list_pos: "0 \<notin> set xs \<Longrightarrow> 0 < prod_list (xs :: nat list)"
  by (induction xs) auto

lemma accumulate_no_overflow:
  "0 \<notin> set xs \<Longrightarrow> init * prod_list xs < 2 ^ u \<Longrightarrow> u \<le> w \<Longrightarrow>
   accumulate w u xs init = init * prod_list xs"
proof (induction xs arbitrary: init)
  case Nil
  then show ?case by simp
next
  case (Cons x xs)
  from Cons.prems have pos: "0 < prod_list xs" and x: "0 < x"
    by (auto simp: prod_list_pos)
  from Cons.prems have le: "(2::nat) ^ u \<le> 2 ^ w"
    by simp
  from Cons.prems have all: "init * x * prod_list xs < 2 ^ u"
    by (simp add: mult.assoc)
  from pos have "init * x \<le> init * x * prod_list xs"
    by simp
  from this all have ix: "init * x < 2 ^ u"
    by (rule le_less_trans)
  from ix le have ixw: "init * x < 2 ^ w"
    by (rule less_le_trans)
  from x have "init \<le> init * x"
    by simp
  from this ixw have i: "init < 2 ^ w"
    by (rule le_less_trans)
  have step: "wrap u (multiply w (wrap w init) x) = init * x"
    using i ix ixw by (simp add: multiply_def wrap_id)
  from all Cons.IH [of "init * x"] Cons.prems have "accumulate w u xs (init * x) = init * x * prod_list xs"
    by simp
  with step show ?case
    by (simp add: mult.assoc)
qed

lemma lcm_vec_product:
  assumes "2 \<le> length ns" and "0 \<notin> set ns" and "prod_list ns < 2 ^ u" and "u \<le> w"
  shows "\<exists>g. gcd_vec ns = Inr g \<and> 0 < g \<and> lcm_vec w u ns = Inr (prod_list ns div g)"
proof -
  from assms(1) have ne: "ns \<noteq> []"
    by auto
  then have g: "gcd_vec ns = Inr (Gcd (set ns))"
    by (rule gcd_vec_Inr)
  with ne assms(2) have pos: "0 < Gcd (set ns)"
    by (rule gcd_vec_pos)
  from assms(2) have "0 < prod_list ns"
    by (rule prod_list_pos)
  with assms(3) have one: "(1::nat) < 2 ^ u"
    by simp
  with assms have acc: "accumulate w u ns (wrap u 1) = prod_list ns"
    by (simp add: wrap_id accumulate_no_overflow)
  from assms have "prod_list ns < 2 ^ w"
    by (meson le_less_trans less_le_trans one_le_numeral power_increasing not_le)
  with acc g ne assms(1,2) have "lcm_vec w u ns = Inr (prod_list ns div Gcd (set ns))"
    by (simp add: lcm_vec_def wrap_id)
  with g pos show ?thesis
    by simp
qed

text \<open>
  C1. Collection lcm of at least two non-zero elements is meant to return the product of
  all elements divided by the collection gcd. With a 64-bit \<^verbatim>\<open>idx\<close> and a 32-bit
  \<^verbatim>\<open>unsigned int\<close> the accumulator started from \<^verbatim>\<open>1u\<close> truncates the product to 32 bits:
  on \<open>[65536, 65536]\<close> the product \<open>2 ^ 32\<close> fits in \<^verbatim>\<open>idx\<close> and the quotient by the gcd
  is 65536, but the function returns 0.
\<close>

theorem lcm_vec_truncated_product:
  "lcm_vec 64 32 [65536, 65536] = Inr 0 \<and>
   gcd_vec [65536, 65536] = Inr 65536 \<and>
   (65536::nat) * 65536 < 2 ^ 64 \<and>
   (65536::nat) * 65536 div 65536 = 65536"
  by (simp add: lcm_vec_def gcd_idx_gcd multiply_def wrap_def)

subsection \<open>Permutations: composition and inverse\<close>

lemma check_perm_iff:
  "check_perm perm \<longleftrightarrow> (\<forall>i<length perm. perm ! i < length perm) \<and> distinct perm"
  by (simp add: check_perm_def list_all_length)

lemma length_fold_update:
  "length (fold (\<lambda>i result. result[f i := g i]) is r) = length r"
  by (induction "is" arbitrary: r) simp_all

lemma comp_fold_nth:
  "k \<le> length r \<Longrightarrow> j < length r \<Longrightarrow>
   fold (\<lambda>i result. result[i := f i]) [0..<k] r ! j = (if j < k then f j else r ! j)"
proof (induction k)
  case 0
  then show ?case by simp
next
  case (Suc k)
  then show ?case
    by (auto simp: length_fold_update nth_list_update)
qed

lemma inv_fold_nth:
  "k \<le> length perm \<Longrightarrow> distinct perm \<Longrightarrow> \<forall>i<length perm. perm ! i < length r \<Longrightarrow> i < k \<Longrightarrow>
   fold (\<lambda>i result. result[perm ! i := i]) [0..<k] r ! (perm ! i) = i"
proof (induction k)
  case 0
  then show ?case by simp
next
  case (Suc k)
  show ?case
  proof (cases "i = k")
    case True
    with Suc.prems show ?thesis
      by (simp add: length_fold_update)
  next
    case False
    with Suc.prems have ik: "i < k"
      by simp
    with Suc.prems have "perm ! i \<noteq> perm ! k"
      by (simp add: nth_eq_iff_index_eq)
    with Suc.IH Suc.prems ik show ?thesis
      by simp
  qed
qed


lemma compperm_map:
  assumes "check_perm perm" and "check_perm sigma" and "length perm = length sigma"
  shows "compperm perm sigma = Inr (map (\<lambda>i. perm ! (sigma ! i)) [0..<length perm])"
proof -
  let ?r = "fold (\<lambda>i result. result[i := perm ! (sigma ! i)]) [0..<length perm]
              (replicate (length perm) 0)"
  have len: "length ?r = length perm"
    by (simp add: length_fold_update)
  have "?r ! j = perm ! (sigma ! j)" if "j < length perm" for j
    using that comp_fold_nth [of "length perm" "replicate (length perm) 0" j "\<lambda>i. perm ! (sigma ! i)"]
    by simp
  with len have "?r = map (\<lambda>i. perm ! (sigma ! i)) [0..<length perm]"
    by (intro nth_equalityI) simp_all
  with assms show ?thesis
    by (simp add: compperm_def)
qed

text \<open>
  C8. Permutation composition signals an error, always of the kind \<^verbatim>\<open>PERM_INVALID\<close>, if and
  only if an input fails the bijection check or the lengths differ; for valid permutations
  of equal length the result has \<open>result[i] = perm[sigma[i]]\<close> at every index.
\<close>

theorem compperm_error_iff_result:
  "((\<exists>e. compperm perm sigma = Inl e) \<longleftrightarrow>
      (\<not> check_perm perm \<or> \<not> check_perm sigma \<or> length perm \<noteq> length sigma)) \<and>
   (\<forall>e. compperm perm sigma = Inl e \<longrightarrow> e = PERM_INVALID) \<and>
   (check_perm perm \<and> check_perm sigma \<and> length perm = length sigma \<longrightarrow>
      (\<exists>result. compperm perm sigma = Inr result \<and> length result = length perm \<and>
         (\<forall>i<length perm. result ! i = perm ! (sigma ! i))))"
proof (cases "check_perm perm \<and> check_perm sigma \<and> length perm = length sigma")
  case True
  then have "compperm perm sigma = Inr (map (\<lambda>i. perm ! (sigma ! i)) [0..<length perm])"
    by (simp add: compperm_map)
  with True show ?thesis
    by simp
next
  case False
  then have "compperm perm sigma = Inl PERM_INVALID"
    by (auto simp: compperm_def)
  with False show ?thesis
    by auto
qed

theorem compperm_error_iff_result_witness:
  "compperm [2, 0, 1] [1, 2, 0] = Inr [0, 1, 2] \<and>
   compperm [0, 0] [0, 1] = Inl PERM_INVALID \<and>
   compperm [0] [0, 1] = Inl PERM_INVALID"
proof -
  have v: "check_perm [2, 0, 1]" "check_perm [1, 2, 0]" "\<not> check_perm [0, 0]" "check_perm [0]"
    "check_perm [0, 1]"
    by (simp_all add: check_perm_def)
  from compperm_error_iff_result [of "[2, 0, 1]" "[1, 2, 0]"] v
  obtain r where r: "compperm [2, 0, 1] [1, 2, 0] = Inr r" "length r = 3"
    "\<forall>i<3. r ! i = [2, 0, 1] ! ([1, 2, 0] ! i)"
    by auto
  from r(3) have "r ! 0 = 0" "r ! 1 = 1" "r ! 2 = 2"
    by simp_all
  with r(2) have "r = [0, 1, 2]"
    by (intro nth_equalityI) (auto simp: less_Suc_eq numeral_3_eq_3 numeral_2_eq_2)
  moreover from compperm_error_iff_result [of "[0, 0]" "[0, 1]"] v
  have "compperm [0, 0] [0, 1] = Inl PERM_INVALID"
    by auto
  moreover from compperm_error_iff_result [of "[0]" "[0, 1]"] v
  have "compperm [0] [0, 1] = Inl PERM_INVALID"
    by auto
  ultimately show ?thesis
    using r(1) by simp
qed

lemma check_perm_onto:
  assumes "check_perm p" and "j < length p"
  shows "\<exists>i<length p. p ! i = j"
proof -
  from assms(1) have d: "distinct p" and r: "set p \<subseteq> {0..<length p}"
    by (auto simp: check_perm_def list_all_iff)
  from d have "card (set p) = card {0..<length p}"
    by (simp add: distinct_card)
  with r have "set p = {0..<length p}"
    by (intro card_subset_eq) simp_all
  with assms(2) have "j \<in> set p"
    by simp
  then show ?thesis
    by (auto simp: in_set_conv_nth)
qed

text \<open>
  C2. For a valid permutation \<open>p\<close> of length \<open>N\<close>, \<open>invperm p\<close> is a vector \<open>q\<close> of length \<open>N\<close>
  with \<open>q[p[i]] = i\<close> at every index, and both compositions of \<open>p\<close> and \<open>q\<close> are the
  identity permutation \<open>[0, \<dots>, N - 1]\<close>.
\<close>

theorem invperm_inverse:
  "check_perm p \<Longrightarrow>
   \<exists>q. invperm p = Inr q \<and> length q = length p \<and> (\<forall>i<length p. q ! (p ! i) = i) \<and>
       compperm p q = Inr [0..<length p] \<and> compperm q p = Inr [0..<length p]"
proof -
  assume valid: "check_perm p"
  let ?N = "length p"
  let ?q = "fold (\<lambda>i result. result[p ! i := i]) [0..<?N] (replicate ?N 0)"
  from valid have inv: "invperm p = Inr ?q"
    by (simp add: invperm_def)
  have len: "length ?q = ?N"
    by (simp add: length_fold_update)
  from valid have d: "distinct p" and r: "\<forall>i<?N. p ! i < ?N"
    by (simp_all add: check_perm_iff)
  have left: "?q ! (p ! i) = i" if "i < ?N" for i
    using that d r inv_fold_nth [of ?N p "replicate ?N 0" i] by simp
  have right: "?q ! j < ?N \<and> p ! (?q ! j) = j" if "j < ?N" for j
  proof -
    from valid that obtain i where "i < ?N" "p ! i = j"
      using check_perm_onto by blast
    with left [of i] show ?thesis
      by auto
  qed
  have "distinct ?q"
    unfolding distinct_conv_nth
  proof (intro allI impI)
    fix i j
    assume "i < length ?q" "j < length ?q" "i \<noteq> j"
    with len right [of i] right [of j] show "?q ! i \<noteq> ?q ! j"
      by metis
  qed
  with len right have validq: "check_perm ?q"
    by (simp add: check_perm_iff)
  from valid validq len have "compperm p ?q = Inr (map (\<lambda>i. p ! (?q ! i)) [0..<?N])"
    by (simp add: compperm_map)
  also have "map (\<lambda>i. p ! (?q ! i)) [0..<?N] = [0..<?N]"
    using right by (intro nth_equalityI) simp_all
  finally have c1: "compperm p ?q = Inr [0..<?N]" .
  from valid validq len have "compperm ?q p = Inr (map (\<lambda>i. ?q ! (p ! i)) [0..<length ?q])"
    by (simp add: compperm_map)
  also have "map (\<lambda>i. ?q ! (p ! i)) [0..<length ?q] = [0..<?N]"
    using left len by (intro nth_equalityI) simp_all
  finally have c2: "compperm ?q p = Inr [0..<?N]" .
  from inv len left c1 c2 show ?thesis
    by (intro exI [of _ ?q] conjI allI impI)
qed


theorem invperm_inverse_witness:
  "check_perm [2, 0, 1] \<and> invperm [2, 0, 1] = Inr [1, 2, 0] \<and>
   compperm [2, 0, 1] [1, 2, 0] = Inr [0, 1, 2] \<and>
   compperm [1, 2, 0] [2, 0, 1] = Inr [0, 1, 2]"
proof -
  have v: "check_perm [2, 0, 1]"
    by (simp add: check_perm_def)
  have i: "invperm [2, 0, 1] = Inr [1, 2, 0]"
    by code_simp
  have u: "[0..<length [2, 0, 1 :: nat]] = [0, 1, 2]"
    by code_simp
  from invperm_inverse [OF v] i u v show ?thesis
    by simp
qed

subsection \<open>Continued-fraction expansion\<close>

lemma x2contfrac_loop_acc:
  "x2contfrac_loop F x k c r = r @ x2contfrac_loop F x k c []"
proof (induction k arbitrary: x r)
  case 0
  show ?case by simp
next
  case (Suc k)
  let ?t = "fp_llround F (fp_floor F x)"
  let ?x' = "fp_div F (fp_of_int F 1) (fp_sub F x (fp_floor F x))"
  have a: "x2contfrac_loop F ?x' k c (r @ [?t]) = (r @ [?t]) @ x2contfrac_loop F ?x' k c []"
    by (rule Suc.IH)
  have b: "x2contfrac_loop F ?x' k c [?t] = [?t] @ x2contfrac_loop F ?x' k c []"
    by (rule Suc.IH)
  show ?case
    by (simp only: x2contfrac_loop.simps Let_def a b append_Nil append_assoc if_distrib [of "\<lambda>l. r @ l"]
        split: if_split)
qed

lemma x2contfrac_loop_unfold:
  "x2contfrac_loop F x (Suc k) c [] =
     spec_term F x #
       (if spec_stop F c (spec_next F x) then []
        else x2contfrac_loop F (spec_next F x) k c [])"
proof -
  have "x2contfrac_loop F (spec_next F x) k c [spec_term F x] =
          [spec_term F x] @ x2contfrac_loop F (spec_next F x) k c []"
    by (rule x2contfrac_loop_acc)
  then show ?thesis
    by (simp add: spec_term_def spec_next_def spec_stop_def Let_def)
qed

lemma funpow_shift: "(f ^^ i) (f x) = (f ^^ Suc i) x"
  by (simp add: funpow_swap1)

lemma x2contfrac_loop_length: "length (x2contfrac_loop F x k c []) \<le> k"
proof (induction k arbitrary: x)
  case 0
  show ?case by simp
next
  case (Suc k)
  from Suc.IH [of "spec_next F x"] show ?case
    by (simp add: x2contfrac_loop_unfold del: x2contfrac_loop.simps)
qed

lemma x2contfrac_loop_first:
  "0 < k \<Longrightarrow> x2contfrac_loop F x k c [] \<noteq> [] \<and>
     hd (x2contfrac_loop F x k c []) = fp_llround F (fp_floor F x)"
  by (cases k) (simp_all add: x2contfrac_loop_unfold spec_term_def del: x2contfrac_loop.simps)

lemma x2contfrac_loop_terms:
  "x2contfrac_loop F x k c [] =
     map (\<lambda>i. spec_term F ((spec_next F ^^ i) x)) [0..<length (x2contfrac_loop F x k c [])]"
proof (induction k arbitrary: x)
  case 0
  show ?case by simp
next
  case (Suc k)
  show ?case
  proof (cases "spec_stop F c (spec_next F x)")
    case True
    then show ?thesis
      by (simp add: x2contfrac_loop_unfold del: x2contfrac_loop.simps)
  next
    case False
    let ?r = "x2contfrac_loop F (spec_next F x) k c []"
    from False have u: "x2contfrac_loop F x (Suc k) c [] = spec_term F x # ?r"
      by (simp add: x2contfrac_loop_unfold del: x2contfrac_loop.simps)
    have "?r = map (\<lambda>i. spec_term F ((spec_next F ^^ i) (spec_next F x))) [0..<length ?r]"
      by (rule Suc.IH)
    also have "\<dots> = map (\<lambda>i. spec_term F ((spec_next F ^^ Suc i) x)) [0..<length ?r]"
      by (simp only: funpow_shift)
    finally have r: "?r = map (\<lambda>i. spec_term F ((spec_next F ^^ Suc i) x)) [0..<length ?r]" .
    have "map (\<lambda>i. spec_term F ((spec_next F ^^ i) x)) [0..<Suc (length ?r)] =
            spec_term F x # map (\<lambda>i. spec_term F ((spec_next F ^^ Suc i) x)) [0..<length ?r]"
      by (simp only: map_upt_Suc funpow_0)
    with r have "map (\<lambda>i. spec_term F ((spec_next F ^^ i) x)) [0..<Suc (length ?r)] =
            spec_term F x # ?r"
      by simp
    with u show ?thesis
      by (simp only: length_Cons)
  qed
qed

lemma x2contfrac_loop_continues:
  "Suc i < length (x2contfrac_loop F x k c []) \<Longrightarrow> \<not> spec_stop F c ((spec_next F ^^ Suc i) x)"
proof (induction k arbitrary: x i)
  case 0
  then show ?case by simp
next
  case step: (Suc k)
  show ?case
  proof (cases "spec_stop F c (spec_next F x)")
    case True
    with step.prems show ?thesis
      by (simp add: x2contfrac_loop_unfold del: x2contfrac_loop.simps)
  next
    case False
    with step.prems have len: "i < length (x2contfrac_loop F (spec_next F x) k c [])"
      by (simp add: x2contfrac_loop_unfold del: x2contfrac_loop.simps)
    show ?thesis
    proof (cases i)
      case 0
      with False show ?thesis by simp
    next
      case (Suc j)
      with len have "Suc j < length (x2contfrac_loop F (spec_next F x) k c [])"
        by simp
      then have "\<not> spec_stop F c ((spec_next F ^^ Suc j) (spec_next F x))"
        by (rule step.IH)
      then have "\<not> spec_stop F c ((spec_next F ^^ Suc (Suc j)) x)"
        by (simp only: funpow_shift not_False_eq_True)
      with Suc show ?thesis
        by simp
    qed
  qed
qed

lemma x2contfrac_loop_stops:
  "length (x2contfrac_loop F x k c []) < k \<Longrightarrow>
   spec_stop F c ((spec_next F ^^ length (x2contfrac_loop F x k c [])) x)"
proof (induction k arbitrary: x)
  case 0
  then show ?case by simp
next
  case (Suc k)
  show ?case
  proof (cases "spec_stop F c (spec_next F x)")
    case True
    then show ?thesis
      by (simp add: x2contfrac_loop_unfold del: x2contfrac_loop.simps)
  next
    case False
    let ?r = "x2contfrac_loop F (spec_next F x) k c []"
    from False have u: "length (x2contfrac_loop F x (Suc k) c []) = Suc (length ?r)"
      by (simp add: x2contfrac_loop_unfold del: x2contfrac_loop.simps)
    with Suc.prems have "length ?r < k"
      by simp
    then have "spec_stop F c ((spec_next F ^^ length ?r) (spec_next F x))"
      by (rule Suc.IH)
    then have "spec_stop F c ((spec_next F ^^ Suc (length ?r)) x)"
      by (simp only: funpow_shift)
    with u show ?thesis
      by (simp only:)
  qed
qed


lemma x2contfrac_Inr: "0 < n \<Longrightarrow> x2contfrac F x n c = Inr (x2contfrac_loop F x n c [])"
  by (simp add: x2contfrac_def)

text \<open>
  C4. Continued-fraction expansion signals an error if and only if \<open>n = 0\<close>. Otherwise it
  returns between 1 and \<open>n\<close> terms; term \<open>i\<close> is the rounded floor of the \<open>i\<close>-th iterate of
  \<open>x \<mapsto> 1 / (x - floor(x))\<close>; no iterate before the last term's successor is non-finite or
  above the cutoff, and when fewer than \<open>n\<close> terms are returned, the iterate after the last
  term is.
\<close>

theorem x2contfrac_expansion:
  "((\<exists>e. x2contfrac F x n c = Inl e) \<longleftrightarrow> n = 0) \<and>
   (0 < n \<longrightarrow>
      (\<exists>r. x2contfrac F x n c = Inr r \<and> 1 \<le> length r \<and> length r \<le> n \<and>
         r = map (\<lambda>i. spec_term F ((spec_next F ^^ i) x)) [0..<length r] \<and>
         (\<forall>i. Suc i < length r \<longrightarrow> \<not> spec_stop F c ((spec_next F ^^ Suc i) x)) \<and>
         (length r < n \<longrightarrow> spec_stop F c ((spec_next F ^^ length r) x))))"
proof -
  let ?r = "x2contfrac_loop F x n c []"
  have err: "(\<exists>e. x2contfrac F x n c = Inl e) \<longleftrightarrow> n = 0"
    by (simp add: x2contfrac_def)
  have ex: "\<exists>r. x2contfrac F x n c = Inr r \<and> 1 \<le> length r \<and> length r \<le> n \<and>
         r = map (\<lambda>i. spec_term F ((spec_next F ^^ i) x)) [0..<length r] \<and>
         (\<forall>i. Suc i < length r \<longrightarrow> \<not> spec_stop F c ((spec_next F ^^ Suc i) x)) \<and>
         (length r < n \<longrightarrow> spec_stop F c ((spec_next F ^^ length r) x))" if pos: "0 < n"
  proof (intro exI [of _ ?r] conjI allI impI)
    from pos show "x2contfrac F x n c = Inr ?r"
      by (rule x2contfrac_Inr)
    from pos have "?r \<noteq> []"
      by (simp add: x2contfrac_loop_first)
    then show "1 \<le> length ?r"
      by (cases ?r) simp_all
    show "length ?r \<le> n"
      by (rule x2contfrac_loop_length)
    show "?r = map (\<lambda>i. spec_term F ((spec_next F ^^ i) x)) [0..<length ?r]"
      by (rule x2contfrac_loop_terms)
    show "\<not> spec_stop F c ((spec_next F ^^ Suc i) x)" if "Suc i < length ?r" for i
      using that by (rule x2contfrac_loop_continues)
    show "spec_stop F c ((spec_next F ^^ length ?r) x)" if "length ?r < n"
      using that by (rule x2contfrac_loop_stops)
  qed
  from err ex show ?thesis
    by (intro conjI impI)
qed

text \<open>
  C10. For every \<open>x\<close> and every \<open>n \<ge> 1\<close> the expansion returns at least one term, the first
  being the rounded floor of \<open>x\<close>; whenever no error is signalled the result is not empty.
\<close>

theorem x2contfrac_nonempty:
  "(1 \<le> n \<longrightarrow>
      (\<exists>r. x2contfrac F x n c = Inr r \<and> r \<noteq> [] \<and> hd r = fp_llround F (fp_floor F x))) \<and>
   (\<forall>r. x2contfrac F x n c = Inr r \<longrightarrow> r \<noteq> [])"
proof (cases "n = 0")
  case True
  then show ?thesis
    by (simp add: x2contfrac_def)
next
  case False
  then have pos: "0 < n"
    by simp
  then have "x2contfrac F x n c = Inr (x2contfrac_loop F x n c [])"
    by (rule x2contfrac_Inr)
  with x2contfrac_loop_first [OF pos, of F x c] show ?thesis
    by simp
qed

text \<open>
  The expansion of \<open>1.5\<close> with \<open>n = 5\<close> is \<open>[1, 2]\<close>: the next value \<open>1 / (2 - 2)\<close> is not
  finite.
\<close>

lemma x2contfrac_loop_numeral:
  "x2contfrac_loop F x (numeral k) c r =
     (let r' = r @ [fp_llround F (fp_floor F x)];
          x' = fp_div F (fp_of_int F 1) (fp_sub F x (fp_floor F x))
      in if \<not> fp_isfinite F x' \<or> fp_gt F x' (fp_of_int F (int c)) then r'
         else x2contfrac_loop F x' (pred_numeral k) c r')"
  by (simp only: numeral_eq_Suc x2contfrac_loop.simps)

lemma floor_values: "\<lfloor>3 / 2 :: rat\<rfloor> = 1" "\<lfloor>1 / 2 :: rat\<rfloor> = 0" "\<lfloor>5 / 2 :: rat\<rfloor> = 2"
  by (simp_all add: floor_eq_iff)

lemma x2contfrac_exact_value: "x2contfrac exact_fpu (Some (3 / 2)) 5 100000 = Inr [1, 2]"
  by (simp add: x2contfrac_def exact_fpu_def x2contfrac_loop_numeral Let_def floor_values)

theorem x2contfrac_expansion_witness:
  "x2contfrac exact_fpu (Some (3 / 2)) 5 100000 = Inr [1, 2] \<and>
   spec_term exact_fpu (Some (3 / 2)) = 1 \<and>
   spec_term exact_fpu (spec_next exact_fpu (Some (3 / 2))) = 2 \<and>
   \<not> spec_stop exact_fpu 100000 (spec_next exact_fpu (Some (3 / 2))) \<and>
   spec_stop exact_fpu 100000 (spec_next exact_fpu (spec_next exact_fpu (Some (3 / 2)))) \<and>
   (\<exists>e. x2contfrac exact_fpu (Some (3 / 2)) 0 100000 = Inl e)"
proof -
  note v = x2contfrac_exact_value
  from x2contfrac_expansion [of exact_fpu "Some (3 / 2)" 5 100000] v
  have a: "spec_term exact_fpu (Some (3 / 2)) = 1 \<and>
     spec_term exact_fpu (spec_next exact_fpu (Some (3 / 2))) = 2 \<and>
     \<not> spec_stop exact_fpu 100000 (spec_next exact_fpu (Some (3 / 2))) \<and>
     spec_stop exact_fpu 100000 (spec_next exact_fpu (spec_next exact_fpu (Some (3 / 2))))"
    by simp
  from x2contfrac_expansion [of exact_fpu "Some (3 / 2)" 0 100000]
  have d: "\<exists>e. x2contfrac exact_fpu (Some (3 / 2)) 0 100000 = Inl e"
    by simp
  from v a d show ?thesis
    by simp
qed

theorem x2contfrac_nonempty_witness:
  "x2contfrac exact_fpu (Some (3 / 2)) 1 100000 = Inr [1] \<and> [1 :: int] \<noteq> []"
proof -
  have v: "x2contfrac exact_fpu (Some (3 / 2)) 1 100000 = Inr [1]"
    by (simp add: x2contfrac_def exact_fpu_def Let_def floor_values)
  with x2contfrac_nonempty [of 1 exact_fpu "Some (3 / 2)" 100000] show ?thesis
    by simp
qed

subsection \<open>Continued-fraction reconstruction\<close>

lemma contfrac2x_n_full: "length cf \<le> n \<Longrightarrow> contfrac2x_n F cf n = contfrac2x F cf"
proof (cases "cf = []")
  case True
  then show ?thesis
    by (simp add: contfrac2x_n_def contfrac2x_def)
next
  case False
  assume le: "length cf \<le> n"
  from False have "0 < length cf"
    by simp
  with le have "n \<noteq> 0"
    by arith
  moreover from le have "(if n > length cf then length cf else n) = length cf"
    by simp
  ultimately show ?thesis
    using False
    by (simp add: contfrac2x_n_def contfrac2x_def Let_def)
qed

text \<open>
  C5. Reconstruction signals an error on an empty term sequence (both overloads) and on
  \<open>n = 0\<close>, and in no other case; a count above the length of the sequence gives the same
  result as the length itself; and the two overloads agree whenever \<open>n\<close> is at least the
  length of the sequence.
\<close>

theorem contfrac2x_errors_clamp_overloads:
  "contfrac2x_n F [] n = Inl ZERO_SIZE \<and> contfrac2x F [] = Inl ZERO_SIZE \<and>
   ((\<exists>e. contfrac2x_n F cf n = Inl e) \<longleftrightarrow> (cf = [] \<or> n = 0)) \<and>
   ((\<exists>e. contfrac2x F cf = Inl e) \<longleftrightarrow> cf = []) \<and>
   (length cf < n \<longrightarrow> contfrac2x_n F cf n = contfrac2x_n F cf (length cf)) \<and>
   (length cf \<le> n \<longrightarrow> contfrac2x_n F cf n = contfrac2x F cf)"
proof -
  have e1: "contfrac2x_n F [] n = Inl ZERO_SIZE" and e2: "contfrac2x F [] = Inl ZERO_SIZE"
    by (simp_all add: contfrac2x_n_def contfrac2x_def)
  have e3: "(\<exists>e. contfrac2x_n F cf n = Inl e) \<longleftrightarrow> (cf = [] \<or> n = 0)"
    by (simp add: contfrac2x_n_def Let_def)
  have e4: "(\<exists>e. contfrac2x F cf = Inl e) \<longleftrightarrow> cf = []"
    by (simp add: contfrac2x_def Let_def)
  have full: "contfrac2x_n F cf n = contfrac2x F cf" if "length cf \<le> n"
    using that by (rule contfrac2x_n_full)
  have clamp: "contfrac2x_n F cf n = contfrac2x_n F cf (length cf)" if "length cf < n"
  proof -
    from that have "contfrac2x_n F cf n = contfrac2x F cf"
      by (simp add: contfrac2x_n_full)
    also have "\<dots> = contfrac2x_n F cf (length cf)"
      by (simp add: contfrac2x_n_full)
    finally show ?thesis .
  qed
  from e1 e2 e3 e4 clamp full show ?thesis
    by (intro conjI impI)
qed

lemma contfrac2x_loop_numeral:
  "contfrac2x_loop F cf (numeral k) t =
     contfrac2x_loop F cf (pred_numeral k)
       (fp_div F (fp_of_int F 1) (fp_add F t (fp_of_int F (cf ! numeral k))))"
  by (simp only: numeral_eq_Suc contfrac2x_loop.simps)

theorem contfrac2x_errors_clamp_overloads_witness:
  "contfrac2x_n exact_fpu [3, 7, 15, 1] 9 = Inr (Some (355 / 113)) \<and>
   contfrac2x_n exact_fpu [3, 7, 15, 1] (length [3, 7, 15, 1 :: int]) = Inr (Some (355 / 113)) \<and>
   contfrac2x exact_fpu [3, 7, 15, 1] = Inr (Some (355 / 113)) \<and>
   (\<exists>e. contfrac2x_n exact_fpu [3, 7, 15, 1] 0 = Inl e)"
proof -
  let ?cf = "[3, 7, 15, 1 :: int]"
  have v: "contfrac2x exact_fpu ?cf = Inr (Some (355 / 113))"
    by (simp add: contfrac2x_def exact_fpu_def contfrac2x_loop_numeral)
  have lt: "length ?cf < 9" and le: "length ?cf \<le> 9"
    by simp_all
  from contfrac2x_errors_clamp_overloads [of exact_fpu 9 ?cf]
  have "length ?cf < 9 \<longrightarrow> contfrac2x_n exact_fpu ?cf 9 = contfrac2x_n exact_fpu ?cf (length ?cf)"
    and "length ?cf \<le> 9 \<longrightarrow> contfrac2x_n exact_fpu ?cf 9 = contfrac2x exact_fpu ?cf"
    by blast+
  with lt le have a: "contfrac2x_n exact_fpu ?cf 9 = contfrac2x_n exact_fpu ?cf (length ?cf)"
    and b: "contfrac2x_n exact_fpu ?cf 9 = contfrac2x exact_fpu ?cf"
    by blast+
  from contfrac2x_errors_clamp_overloads [of exact_fpu 0 ?cf]
  have c: "\<exists>e. contfrac2x_n exact_fpu ?cf 0 = Inl e"
    by simp
  from b v have "contfrac2x_n exact_fpu ?cf 9 = Inr (Some (355 / 113))"
    by (rule trans)
  moreover from a [symmetric] this have "contfrac2x_n exact_fpu ?cf (length ?cf) = Inr (Some (355 / 113))"
    by (rule trans)
  ultimately show ?thesis
    using v c by (intro conjI)
qed

lemma contfrac2x_returns: "cf \<noteq> [] \<Longrightarrow> \<exists>v. contfrac2x F cf = Inr v"
  by (simp add: contfrac2x_def Let_def)

text \<open>
  C9. The divisions of the reconstruction are unguarded. On \<open>[1, 0]\<close> both overloads
  return \<open>1 + 1. / 0\<close> and signal no error. In IEEE 754 arithmetic \<open>1. / 0\<close> is infinite, and
  a sum with a non-finite operand is not finite: under these two properties of the
  primitives the value returned is not finite.
\<close>

theorem contfrac2x_zero_denominator:
  assumes div0: "\<not> fp_isfinite F (fp_div F (fp_of_int F 1) (fp_of_int F 0))"
    and add_nonfinite: "\<forall>a b. \<not> fp_isfinite F b \<longrightarrow> \<not> fp_isfinite F (fp_add F a b)"
  shows "\<exists>v. contfrac2x F [1, 0] = Inr v \<and> contfrac2x_n F [1, 0] 2 = Inr v \<and>
           v = fp_add F (fp_of_int F 1) (fp_div F (fp_of_int F 1) (fp_of_int F 0)) \<and>
           \<not> fp_isfinite F v"
proof -
  let ?v = "fp_add F (fp_of_int F 1) (fp_div F (fp_of_int F 1) (fp_of_int F 0))"
  have a: "contfrac2x F [1, 0] = Inr ?v"
    by (simp add: contfrac2x_def)
  have b: "contfrac2x_n F [1, 0] 2 = Inr ?v"
    by (simp add: contfrac2x_n_def)
  from div0 add_nonfinite have c: "\<not> fp_isfinite F ?v"
    by blast
  from a b c show ?thesis
    by (intro exI [of _ ?v] conjI refl)
qed

theorem contfrac2x_zero_denominator_witness:
  "contfrac2x exact_fpu [1, 0] = Inr None \<and> contfrac2x_n exact_fpu [1, 0] 2 = Inr None \<and>
   \<not> fp_isfinite exact_fpu None"
proof -
  have div0: "\<not> fp_isfinite exact_fpu (fp_div exact_fpu (fp_of_int exact_fpu 1) (fp_of_int exact_fpu 0))"
    by (simp add: exact_fpu_def)
  have add_nonfinite:
    "\<forall>a b. \<not> fp_isfinite exact_fpu b \<longrightarrow> \<not> fp_isfinite exact_fpu (fp_add exact_fpu a b)"
    by (simp add: exact_fpu_def split: option.splits)
  have v: "fp_add exact_fpu (fp_of_int exact_fpu 1)
             (fp_div exact_fpu (fp_of_int exact_fpu 1) (fp_of_int exact_fpu 0)) = None"
    by (simp add: exact_fpu_def)
  from contfrac2x_zero_denominator [OF div0 add_nonfinite] v show ?thesis
    by auto
qed

end
